theory Spec2Isabelle
  imports Main "HOL-Library.Word"
begin

unbundle bit_operations_syntax

section \<open>The rule compiler: \<open>TextFSM::checkSymbol\<close>\<close>

text \<open>
  A rule is a C string: the bytes of the pattern followed by a terminating NUL.
  The model keeps the bytes as a \<open>string\<close>; \<open>strlen\<close> counts up to the first NUL, and
  reading index \<open>strlen rule\<close> yields the terminator, which belongs to the string.
  Any read at a larger index is past the end of the string; the model reports it as a
  fault instead of returning a value.
\<close>

datatype fault = ReadPastEnd nat

definition NUL :: char where
  "NUL = CHR 0x00"

definition backslash :: char where
  "backslash = CHR 0x5C"

definition strlen :: "string \<Rightarrow> nat" where
  "strlen s = length (takeWhile (\<lambda>c. c \<noteq> NUL) s)"

definition rule_at :: "string \<Rightarrow> nat \<Rightarrow> fault + char" where
  "rule_at s i = (if i \<le> strlen s then Inr ((s @ [NUL]) ! i) else Inl (ReadPastEnd i))"

definition alphabet :: string where
  "alphabet = ''abcdefghijklmnopqrstuvwxyz'' @ ''ABCDEFGHIJKLMNOPQRSTUVWXYZ'' @ ''0123456789''"

text \<open>
  The source's parameter \<open>sym\<close> is written \<open>symb\<close> here, since \<open>sym\<close> is a constant of HOL.
  The character tests compare \<open>char\<close> values. All bounds are below 128, so the result
  is the same whether \<open>char\<close> is signed or unsigned; the model compares byte values.
\<close>

definition isLetter :: "char \<Rightarrow> bool" where
  "isLetter symb =
     ((of_char (CHR ''a'') \<le> (of_char symb :: nat) \<and> (of_char symb :: nat) \<le> of_char (CHR ''z'')) \<or>
      (of_char (CHR ''A'') \<le> (of_char symb :: nat) \<and> (of_char symb :: nat) \<le> of_char (CHR ''Z'')))"

definition isNumber :: "char \<Rightarrow> bool" where
  "isNumber symb =
     (of_char (CHR ''0'') \<le> (of_char symb :: nat) \<and> (of_char symb :: nat) \<le> of_char (CHR ''9''))"

definition isSpace :: "char \<Rightarrow> bool" where
  "isSpace symb = (symb = CHR '' '' \<or> symb = CHR 0x09)"

text \<open>
  The inner loop of the \<open>-\<close> branch, over the alphabet from left to right.
  The result \<open>True\<close> stands for the \<open>return direct\<close> inside the loop, \<open>False\<close> for
  leaving the loop (by \<open>break\<close> or at the end of the alphabet) without returning.
\<close>

fun range_loop :: "string \<Rightarrow> bool \<Rightarrow> char \<Rightarrow> char \<Rightarrow> char \<Rightarrow> bool" where
  "range_loop [] inside previous_symbol upper symb = False"
| "range_loop (a # rest) inside previous_symbol upper symb =
     (let inside' = (if a = previous_symbol then True else inside)
      in if inside' \<and> symb = a then True
         else if a = upper then False
         else range_loop rest inside' previous_symbol upper symb)"

text \<open>
  The \<open>switch\<close> of the backslash branch on the character after the backslash: \<open>True\<close>
  stands for \<open>return direct\<close>, \<open>False\<close> for \<open>break\<close> or for no matching \<open>case\<close>.
\<close>

definition escape_switch :: "char \<Rightarrow> char \<Rightarrow> bool" where
  "escape_switch e symb =
     (if e = backslash then symb = backslash
      else if e = CHR ''^'' then symb = CHR ''^''
      else if e = CHR ''-'' then symb = CHR ''-''
      else if e = CHR ''.'' then symb = CHR ''.''
      else if e = CHR ''w'' then isLetter symb
      else if e = CHR ''d'' then isNumber symb
      else if e = CHR ''s'' then isSpace symb
      else if e = CHR ''n'' then symb = CHR 0x0A
      else if e = CHR ''t'' then symb = CHR 0x09
      else if e = CHR ''0'' then symb = NUL
      else False)"

text \<open>
  The main loop of \<open>checkSymbol\<close>, started at index \<open>idx\<close> with the current values of
  \<open>direct\<close> and \<open>previous_symbol\<close>.
\<close>

function checkSymbol_loop :: "string \<Rightarrow> char \<Rightarrow> nat \<Rightarrow> bool \<Rightarrow> char \<Rightarrow> fault + bool" where
  "checkSymbol_loop rule symb idx direct previous_symbol =
     (if \<not> idx < strlen rule then Inr (\<not> direct)
      else case rule_at rule idx of
        Inl f \<Rightarrow> Inl f
      | Inr c \<Rightarrow>
          if c = CHR ''^'' then checkSymbol_loop rule symb (idx + 1) False c
          else if c = CHR ''.'' then Inr direct
          else if c = CHR ''-'' then
            (case rule_at rule (idx + 1) of
               Inl f \<Rightarrow> Inl f
             | Inr upper \<Rightarrow>
                 if range_loop alphabet False previous_symbol upper symb then Inr direct
                 else checkSymbol_loop rule symb (idx + 2) direct upper)
          else if c = backslash then
            (case rule_at rule (idx + 1) of
               Inl f \<Rightarrow> Inl f
             | Inr e \<Rightarrow>
                 if escape_switch e symb then Inr direct
                 else checkSymbol_loop rule symb (idx + 2) direct e)
          else if c = symb then Inr direct
          else checkSymbol_loop rule symb (idx + 1) direct c)"
  by pat_completeness auto
termination
  by (relation "measure (\<lambda>(rule, symb, idx, direct, previous_symbol). strlen rule - idx)") auto

declare checkSymbol_loop.simps [simp del]

definition checkSymbol :: "string \<Rightarrow> char \<Rightarrow> fault + bool" where
  "checkSymbol rule symb = checkSymbol_loop rule symb 0 True NUL"

text \<open>
  The compiled predicate: the closure \<open>[rule](char sym) { return checkSymbol(rule, sym); }\<close>
  that \<open>TextFSM::createEdge\<close> and \<open>TextFSM::createGlobalEdge\<close> store in the edge. It
  accepts a symbol when \<open>checkSymbol\<close> returns \<open>true\<close>.
\<close>

definition rule_function :: "string \<Rightarrow> char \<Rightarrow> bool" where
  "rule_function rule symb = (checkSymbol rule symb = Inr True)"

text \<open>
  Where the scan of a pattern stands after each element: \<open>-\<close> and the backslash
  consume the character that follows them, every other character stands alone.
  \<open>tokens_complete p\<close> says that the scan of \<open>p\<close> ends exactly at the end of \<open>p\<close>, so a
  character appended to \<open>p\<close> starts an element of its own. It is used to say that a
  trailing backslash is a lone one, not the second character of an escape or a range.
\<close>

fun tokens_complete :: "string \<Rightarrow> bool" where
  "tokens_complete [] = True"
| "tokens_complete [c] = (c \<noteq> CHR ''-'' \<and> c \<noteq> backslash)"
| "tokens_complete (c # d # rest) =
     (if c = CHR ''-'' \<or> c = backslash then tokens_complete rest else tokens_complete (d # rest))"

section \<open>The transition engine: \<open>FSM<State, Condition>\<close>\<close>

subsection \<open>Edge flags\<close>

type_synonym EdgeFlag = "32 word"

definition E_NONE :: EdgeFlag where
  "E_NONE = 0"

definition E_SILENT :: EdgeFlag where
  "E_SILENT = push_bit 0 1"

definition E_GLOBAL :: EdgeFlag where
  "E_GLOBAL = push_bit 1 1"

text \<open>
  The expression \<open>!(flags & E_SILENT == E_SILENT)\<close> of \<open>process\<close>, as C++ groups it:
  \<open>==\<close> binds tighter than \<open>&\<close>, so the comparison is evaluated first, its \<open>bool\<close> is
  promoted to an integer, and \<open>!\<close> tests the conjunction against zero.
\<close>

definition not_silent_expr :: "EdgeFlag \<Rightarrow> bool" where
  "not_silent_expr fl = (\<not> (fl AND of_bool (E_SILENT = E_SILENT) \<noteq> 0))"

text \<open>The plain flag-membership test: the edge carries the SILENT flag.\<close>

definition carries_SILENT :: "EdgeFlag \<Rightarrow> bool" where
  "carries_SILENT fl = (fl AND E_SILENT = E_SILENT)"

subsection \<open>Edges and the machine\<close>

text \<open>
  The field \<open>simple_rule\<close> of \<open>Edge\<close> is never written nor read and is left out.
  A rule is a \<open>std::function<bool(Condition)>\<close>; the model takes it as a pure total
  predicate.
\<close>

record ('s, 'c) Edge =
  source :: 's
  destination :: 's
  rule :: "'c \<Rightarrow> bool"
  label :: string
  flags :: EdgeFlag

text \<open>The constructor of \<open>Edge\<close>: the label is the given text with every backslash doubled.\<close>

definition Edge_label :: "string \<Rightarrow> string" where
  "Edge_label edge_label =
     fold (\<lambda>c lab. if c = backslash then (lab @ [c]) @ [c] else lab @ [c]) edge_label []"

definition Edge_new :: "'s \<Rightarrow> 's \<Rightarrow> ('c \<Rightarrow> bool) \<Rightarrow> string \<Rightarrow> EdgeFlag \<Rightarrow> ('s, 'c) Edge" where
  "Edge_new src dst r edge_label fl =
     \<lparr>source = src, destination = dst, rule = r, label = Edge_label edge_label, flags = fl\<rparr>"

record ('s, 'c) FSM =
  default_state :: 's
  current_state :: 's
  previous_state :: 's
  possible_states :: "'s set"
  edges :: "'s \<rightharpoonup> ('s, 'c) Edge list"
  global_edges :: "('s, 'c) Edge list"
  state_names :: "'s \<rightharpoonup> string"

text \<open>The two constructors.\<close>

definition FSM_default :: "'s \<Rightarrow> ('s, 'c) FSM" where
  "FSM_default d =
     \<lparr>default_state = d, current_state = d, previous_state = d,
      possible_states = insert d {},
      edges = Map.empty, global_edges = [], state_names = Map.empty\<rparr>"

definition FSM_start :: "'s \<Rightarrow> 's \<Rightarrow> ('s, 'c) FSM" where
  "FSM_start d start_state =
     \<lparr>default_state = d, current_state = start_state, previous_state = start_state,
      possible_states = insert start_state (insert d {}),
      edges = Map.empty, global_edges = [], state_names = Map.empty\<rparr>"

text \<open>
  \<open>edges[s]\<close> on the \<open>std::unordered_map\<close>: a key that is absent is inserted with an
  empty vector, and the vector under the key is returned.
\<close>

definition edges_index :: "('s, 'c) FSM \<Rightarrow> 's \<Rightarrow> ('s, 'c) Edge list \<times> ('s, 'c) FSM" where
  "edges_index fsm s =
     (case edges fsm s of
        None \<Rightarrow> ([], fsm\<lparr>edges := (edges fsm)(s \<mapsto> [])\<rparr>)
      | Some es \<Rightarrow> (es, fsm))"

text \<open>The edge list of a state as a reader sees it: no entry reads as no edges.\<close>

definition edges_of :: "('s, 'c) FSM \<Rightarrow> 's \<Rightarrow> ('s, 'c) Edge list" where
  "edges_of fsm s = (case edges fsm s of None \<Rightarrow> [] | Some es \<Rightarrow> es)"

text \<open>
  Each \<open>for\<close> loop of \<open>getEdge\<close>: the first edge of the vector whose rule accepts the
  condition ends the loop.
\<close>

fun getEdge_loop :: "('s, 'c) Edge list \<Rightarrow> 'c \<Rightarrow> ('s, 'c) Edge option" where
  "getEdge_loop [] cond = None"
| "getEdge_loop (edge # rest) cond =
     (if rule edge cond then Some edge else getEdge_loop rest cond)"

text \<open>
  \<open>getEdge\<close>: \<open>Some edge\<close> stands for the return value \<open>true\<close> with \<open>edge_ret\<close> set,
  \<open>None\<close> for \<open>false\<close> with \<open>edge_ret\<close> untouched.
\<close>

definition getEdge :: "('s, 'c) FSM \<Rightarrow> 'c \<Rightarrow> ('s, 'c) Edge option \<times> ('s, 'c) FSM" where
  "getEdge fsm cond =
     (let (local_edges, fsm') = edges_index fsm (current_state fsm)
      in case getEdge_loop local_edges cond of
           Some edge \<Rightarrow> (Some edge, fsm')
         | None \<Rightarrow> (getEdge_loop (global_edges fsm') cond, fsm'))"

definition changeState :: "('s, 'c) FSM \<Rightarrow> 's \<Rightarrow> ('s, 'c) FSM" where
  "changeState fsm dst = fsm\<lparr>current_state := dst\<rparr>"

definition createEdge ::
  "('s, 'c) FSM \<Rightarrow> 's \<Rightarrow> 's \<Rightarrow> ('c \<Rightarrow> bool) \<Rightarrow> string \<Rightarrow> EdgeFlag \<Rightarrow> ('s, 'c) FSM" where
  "createEdge fsm src dst r lab fl =
     (let fsm1 = (if edges fsm src = None then fsm\<lparr>edges := (edges fsm)(src \<mapsto> [])\<rparr> else fsm);
          (es, fsm2) = edges_index fsm1 src;
          fsm3 = fsm2\<lparr>edges := (edges fsm2)(src \<mapsto> es @ [Edge_new src dst r lab fl])\<rparr>;
          fsm4 = fsm3\<lparr>possible_states := insert src (possible_states fsm3)\<rparr>
      in fsm4\<lparr>possible_states := insert dst (possible_states fsm4)\<rparr>)"

definition createGlobalEdge ::
  "('s, 'c) FSM \<Rightarrow> 's \<Rightarrow> ('c \<Rightarrow> bool) \<Rightarrow> string \<Rightarrow> EdgeFlag \<Rightarrow> ('s, 'c) FSM" where
  "createGlobalEdge fsm dst r lab fl =
     (let fsm1 = fsm\<lparr>global_edges :=
                   global_edges fsm @ [Edge_new (default_state fsm) dst r lab (fl OR E_GLOBAL)]\<rparr>
      in fsm1\<lparr>possible_states := insert dst (possible_states fsm1)\<rparr>)"

text \<open>
  \<open>createGlobalEdge\<close> passes \<open>flags | E_GLOBAL\<close>, an \<open>int\<close>, where the constructor takes
  an \<open>EdgeFlag\<close>; the model stores the value of the disjunction.

  The overloads that take a \<open>Condition\<close> value have the same bodies; their \<open>Edge\<close>
  constructor initialises the \<open>std::function\<close> member from the value. Which predicate
  that conversion yields is fixed by the \<open>Condition\<close> type and not by this code, so the
  conversion \<open>conv\<close> is a parameter.
\<close>

definition createEdge_value ::
  "('c \<Rightarrow> 'c \<Rightarrow> bool) \<Rightarrow> ('s, 'c) FSM \<Rightarrow> 's \<Rightarrow> 's \<Rightarrow> 'c \<Rightarrow> string \<Rightarrow> EdgeFlag \<Rightarrow> ('s, 'c) FSM" where
  "createEdge_value conv fsm src dst v lab fl = createEdge fsm src dst (conv v) lab fl"

definition createGlobalEdge_value ::
  "('c \<Rightarrow> 'c \<Rightarrow> bool) \<Rightarrow> ('s, 'c) FSM \<Rightarrow> 's \<Rightarrow> 'c \<Rightarrow> string \<Rightarrow> EdgeFlag \<Rightarrow> ('s, 'c) FSM" where
  "createGlobalEdge_value conv fsm dst v lab fl = createGlobalEdge fsm dst (conv v) lab fl"

text \<open>
  \<open>TextFSM<State>\<close> is \<open>FSM<State, char>\<close>; its \<open>createEdge\<close> and \<open>createGlobalEdge\<close> on
  a rule string store the compiled predicate and pass the rule text as the label.
\<close>

definition TextFSM_createEdge ::
  "('s, char) FSM \<Rightarrow> 's \<Rightarrow> 's \<Rightarrow> string \<Rightarrow> EdgeFlag \<Rightarrow> ('s, char) FSM" where
  "TextFSM_createEdge fsm src dst r fl = createEdge fsm src dst (rule_function r) r fl"

definition TextFSM_createGlobalEdge ::
  "('s, char) FSM \<Rightarrow> 's \<Rightarrow> string \<Rightarrow> EdgeFlag \<Rightarrow> ('s, char) FSM" where
  "TextFSM_createGlobalEdge fsm dst r fl = createGlobalEdge fsm dst (rule_function r) r fl"

definition setStateName :: "('s, 'c) FSM \<Rightarrow> 's \<Rightarrow> string \<Rightarrow> ('s, 'c) FSM" where
  "setStateName fsm s state_name = fsm\<lparr>state_names := (state_names fsm)(s \<mapsto> state_name)\<rparr>"

definition previousState :: "('s, 'c) FSM \<Rightarrow> 's" where
  "previousState fsm = previous_state fsm"

definition currentState :: "('s, 'c) FSM \<Rightarrow> 's" where
  "currentState fsm = current_state fsm"

definition stateName :: "('s, 'c) FSM \<Rightarrow> 's \<Rightarrow> string" where
  "stateName fsm s = (case state_names fsm s of Some n \<Rightarrow> n | None \<Rightarrow> [])"

subsection \<open>\<open>process\<close>\<close>

text \<open>
  \<open>process(cond)\<close> returns its \<open>bool\<close> together with the machine after the call.
  The second \<open>getEdge\<close> is only called when the state reached is the default state
  (the \<open>&&\<close> of the source).
\<close>

definition process :: "('s, 'c) FSM \<Rightarrow> 'c \<Rightarrow> bool \<times> ('s, 'c) FSM" where
  "process fsm cond =
     (let passed_edge = False;
          fsm0 = fsm\<lparr>previous_state := current_state fsm\<rparr>
      in case getEdge fsm0 cond of
           (None, fsm1) \<Rightarrow> (passed_edge, fsm1)
         | (Some edge1, fsm1) \<Rightarrow>
             (let fsm2 = changeState fsm1 (destination edge1);
                  passed_edge1 = (passed_edge \<or> not_silent_expr (flags edge1))
              in if current_state fsm2 = default_state fsm2 then
                   (case getEdge fsm2 cond of
                      (Some edge2, fsm3) \<Rightarrow>
                        (passed_edge1 \<or> not_silent_expr (flags edge2),
                         changeState fsm3 (destination edge2))
                    | (None, fsm3) \<Rightarrow> (passed_edge1, fsm3))
                 else (passed_edge1, fsm2)))"

text \<open>
  The overload \<open>process(cond, ended_state, state_changed)\<close>: the result is the machine
  after the call and the values stored through the two references.
\<close>

definition process_out :: "('s, 'c) FSM \<Rightarrow> 'c \<Rightarrow> ('s, 'c) FSM \<times> 's \<times> bool" where
  "process_out fsm cond =
     (let (state_changed, fsm') = process fsm cond;
          ended_state = previousState fsm'
      in (fsm', ended_state, state_changed))"

text \<open>
  The edges whose destination \<open>process\<close> passes to \<open>changeState\<close> during one call, in
  the order taken. It follows the control flow of \<open>process\<close> and records nothing else.
\<close>

definition process_taken :: "('s, 'c) FSM \<Rightarrow> 'c \<Rightarrow> ('s, 'c) Edge list" where
  "process_taken fsm cond =
     (let fsm0 = fsm\<lparr>previous_state := current_state fsm\<rparr>
      in case getEdge fsm0 cond of
           (None, fsm1) \<Rightarrow> []
         | (Some edge1, fsm1) \<Rightarrow>
             (let fsm2 = changeState fsm1 (destination edge1)
              in if current_state fsm2 = default_state fsm2 then
                   (case getEdge fsm2 cond of
                      (Some edge2, fsm3) \<Rightarrow> [edge1, edge2]
                    | (None, fsm3) \<Rightarrow> [edge1])
                 else [edge1]))"

text \<open>
  The two calls of \<open>getEdge\<close> that \<open>process\<close> makes: the first on the machine with
  \<open>previous_state\<close> set, the second, after the edge \<open>edge1\<close> was taken, on the machine
  moved to the destination of \<open>edge1\<close>.
\<close>

definition first_getEdge :: "('s, 'c) FSM \<Rightarrow> 'c \<Rightarrow> ('s, 'c) Edge option \<times> ('s, 'c) FSM" where
  "first_getEdge fsm cond = getEdge (fsm\<lparr>previous_state := current_state fsm\<rparr>) cond"

definition second_getEdge ::
  "('s, 'c) FSM \<Rightarrow> 'c \<Rightarrow> ('s, 'c) Edge \<Rightarrow> ('s, 'c) Edge option \<times> ('s, 'c) FSM" where
  "second_getEdge fsm cond edge1 =
     getEdge (changeState (snd (first_getEdge fsm cond)) (destination edge1)) cond"

subsection \<open>The build phase\<close>

text \<open>A call of the build phase, and a sequence of them run on a machine.\<close>

datatype ('s, 'c) build_call =
    CreateEdge 's 's "'c \<Rightarrow> bool" string EdgeFlag
  | CreateEdgeValue 's 's 'c string EdgeFlag
  | CreateGlobalEdge 's "'c \<Rightarrow> bool" string EdgeFlag
  | CreateGlobalEdgeValue 's 'c string EdgeFlag
  | SetStateName 's string

fun run_call :: "('c \<Rightarrow> 'c \<Rightarrow> bool) \<Rightarrow> ('s, 'c) FSM \<Rightarrow> ('s, 'c) build_call \<Rightarrow> ('s, 'c) FSM" where
  "run_call conv fsm (CreateEdge src dst r lab fl) = createEdge fsm src dst r lab fl"
| "run_call conv fsm (CreateEdgeValue src dst v lab fl) = createEdge_value conv fsm src dst v lab fl"
| "run_call conv fsm (CreateGlobalEdge dst r lab fl) = createGlobalEdge fsm dst r lab fl"
| "run_call conv fsm (CreateGlobalEdgeValue dst v lab fl) = createGlobalEdge_value conv fsm dst v lab fl"
| "run_call conv fsm (SetStateName s n) = setStateName fsm s n"

definition run_calls ::
  "('c \<Rightarrow> 'c \<Rightarrow> bool) \<Rightarrow> ('s, 'c) FSM \<Rightarrow> ('s, 'c) build_call list \<Rightarrow> ('s, 'c) FSM" where
  "run_calls conv fsm calls = foldl (run_call conv) fsm calls"

text \<open>The states a call passes as source or destination of an edge.\<close>

fun call_states :: "('s, 'c) build_call \<Rightarrow> 's set" where
  "call_states (CreateEdge src dst r lab fl) = {src, dst}"
| "call_states (CreateEdgeValue src dst v lab fl) = {src, dst}"
| "call_states (CreateGlobalEdge dst r lab fl) = {dst}"
| "call_states (CreateGlobalEdgeValue dst v lab fl) = {dst}"
| "call_states (SetStateName s n) = {}"

text \<open>Every edge the machine holds, local or global.\<close>

definition registered_edges :: "('s, 'c) FSM \<Rightarrow> ('s, 'c) Edge set" where
  "registered_edges fsm =
     {e. \<exists>s es. edges fsm s = Some es \<and> e \<in> set es} \<union> set (global_edges fsm)"

subsection \<open>Registration order\<close>

text \<open>
  Position \<open>i\<close> holds the first edge of the list \<open>es\<close>, in registration order, whose
  rule accepts \<open>cond\<close>.
\<close>

definition first_accepting :: "('s, 'c) Edge list \<Rightarrow> 'c \<Rightarrow> nat \<Rightarrow> bool" where
  "first_accepting es cond i =
     (i < length es \<and> rule (es ! i) cond \<and> (\<forall>j < i. \<not> rule (es ! j) cond))"

subsection \<open>The invariant of the build phase\<close>

text \<open>
  The default state is a possible state, and so are the source and the destination of
  every edge the machine holds.
\<close>

definition build_inv :: "('s, 'c) FSM \<Rightarrow> bool" where
  "build_inv fsm =
     (default_state fsm \<in> possible_states fsm \<and>
      (\<forall>e \<in> registered_edges fsm.
         source e \<in> possible_states fsm \<and> destination e \<in> possible_states fsm))"

subsection \<open>Example machines\<close>

text \<open>
  States are numbers and conditions are characters. \<open>demo_reentry\<close> starts in state 1
  with default state 0: a silent edge leads from 1 to 0 on \<open>x\<close> and an edge that is not
  silent from 0 to 2 on \<open>x\<close>. \<open>demo_silent\<close> has one silent edge from its default state.
  \<open>demo_priority\<close> has a local edge from 0 to 1 on \<open>x\<close> and a global edge to 2 on \<open>x\<close>
  or \<open>y\<close>.
\<close>

definition demo_reentry :: "(nat, char) FSM" where
  "demo_reentry =
     createEdge
       (createEdge (FSM_start 0 1) 1 0 (\<lambda>c. c = CHR ''x'') ''x'' E_SILENT)
       0 2 (\<lambda>c. c = CHR ''x'') ''x'' E_NONE"

definition demo_silent :: "(nat, char) FSM" where
  "demo_silent = createEdge (FSM_default 0) 0 1 (\<lambda>c. c = CHR ''x'') ''x'' E_SILENT"

definition demo_priority :: "(nat, char) FSM" where
  "demo_priority =
     createGlobalEdge
       (createEdge (FSM_default 0) 0 1 (\<lambda>c. c = CHR ''x'') ''x'' E_NONE)
       2 (\<lambda>c. c = CHR ''x'' \<or> c = CHR ''y'') ''xy'' E_NONE"


section \<open>Properties of the rule compiler\<close>

subsection \<open>Strings and their terminator\<close>

lemma strlen_no_NUL: "NUL \<notin> set p \<Longrightarrow> strlen p = length p"
  by (induction p) (auto simp: strlen_def)

lemma strlen_append_no_NUL: "NUL \<notin> set p \<Longrightarrow> strlen (p @ q) = length p + strlen q"
  by (induction p) (auto simp: strlen_def)

lemma terminator_at_strlen: "(s @ [NUL]) ! strlen s = NUL"
  by (induction s) (auto simp: strlen_def)

lemma rule_at_strlen: "rule_at pat (strlen pat) = Inr NUL"
  by (simp add: rule_at_def terminator_at_strlen)

lemma rule_at_in_bounds: "i \<le> strlen pat \<Longrightarrow> \<exists>c. rule_at pat i = Inr c"
  by (simp add: rule_at_def)

lemma rule_at_append_left:
  "NUL \<notin> set p \<Longrightarrow> i < length p \<Longrightarrow> rule_at (p @ q) i = Inr (p ! i)"
  by (simp add: rule_at_def strlen_append_no_NUL nth_append)

lemma rule_at_left:
  "NUL \<notin> set p \<Longrightarrow> i < length p \<Longrightarrow> rule_at p i = Inr (p ! i)"
  by (simp add: rule_at_def strlen_no_NUL nth_append)

lemma NUL_not_in_alphabet: "NUL \<notin> set alphabet"
  by (simp add: alphabet_def NUL_def)

lemma escape_switch_NUL: "escape_switch NUL symb = False"
  by (simp add: escape_switch_def NUL_def backslash_def)

lemma backslash_distinct:
  "backslash \<noteq> CHR ''^''" "backslash \<noteq> CHR ''.''" "backslash \<noteq> CHR ''-''" "backslash \<noteq> NUL"
  by (simp_all add: backslash_def NUL_def)

subsection \<open>The range loop\<close>

lemma range_loop_lower_absent:
  "previous_symbol \<notin> set as \<Longrightarrow> range_loop as False previous_symbol upper symb = False"
  by (induction as) auto

lemma range_loop_inside_upper_absent:
  "upper \<notin> set as \<Longrightarrow> range_loop as True previous_symbol upper symb = (symb \<in> set as)"
  by (induction as) auto

lemma range_loop_upper_absent:
  "upper \<notin> set as \<Longrightarrow>
   range_loop as False previous_symbol upper symb =
     (symb \<in> set (dropWhile (\<lambda>a. a \<noteq> previous_symbol) as))"
  by (induction as) (auto simp: range_loop_inside_upper_absent)

text \<open>
  Counterexample to C1 as stated. In the pattern \<open>a-\<close> the hyphen is the last character,
  so the upper bound read is the string terminator, which is not in the alphabet; in
  \<open>a-_\<close> the upper bound \<open>_\<close> is not in the alphabet either. In both the range segment
  accepts \<open>b\<close>, which the literal \<open>a\<close> alone rejects.
\<close>

theorem range_upper_absent_counterexample:
  "CHR ''a'' \<in> set alphabet \<and> NUL \<notin> set alphabet \<and> CHR ''_'' \<notin> set alphabet \<and>
   rule_at ''a-'' 2 = Inr NUL \<and>
   range_loop alphabet False (CHR ''a'') NUL (CHR ''b'') \<and>
   range_loop alphabet False (CHR ''a'') (CHR ''_'') (CHR ''b'') \<and>
   checkSymbol ''a'' (CHR ''b'') = Inr False \<and>
   checkSymbol ''a-'' (CHR ''b'') = Inr True \<and>
   checkSymbol ''a-_'' (CHR ''b'') = Inr True"
  by (simp add: checkSymbol_def checkSymbol_loop.simps strlen_def rule_at_def NUL_def
      alphabet_def backslash_def)

text \<open>
  C1, as amended. A range segment whose lower bound (the character before the hyphen,
  NUL when the hyphen opens the pattern) is not in the alphabet yields no match for any
  symbol, and the scan goes on behind the segment. A segment whose upper bound is not in
  the alphabet is not empty: it accepts exactly the alphabet characters from the position
  of the lower bound to the end of the alphabet. A trailing hyphen is such a segment, its
  upper bound being the string terminator.
\<close>

theorem range_segment_absent_bound:
  "(previous_symbol \<notin> set alphabet \<longrightarrow>
      \<not> range_loop alphabet False previous_symbol upper symb) \<and>
   (upper \<notin> set alphabet \<longrightarrow>
      range_loop alphabet False previous_symbol upper symb =
        (symb \<in> set (dropWhile (\<lambda>a. a \<noteq> previous_symbol) alphabet))) \<and>
   (idx < strlen pat \<and> rule_at pat idx = Inr (CHR ''-'') \<and>
    rule_at pat (idx + 1) = Inr upper \<and> previous_symbol \<notin> set alphabet \<longrightarrow>
      checkSymbol_loop pat symb idx direct previous_symbol =
        checkSymbol_loop pat symb (idx + 2) direct upper) \<and>
   (idx + 1 = strlen pat \<and> rule_at pat idx = Inr (CHR ''-'') \<longrightarrow>
      checkSymbol_loop pat symb idx direct previous_symbol =
        Inr (if symb \<in> set (dropWhile (\<lambda>a. a \<noteq> previous_symbol) alphabet)
             then direct else \<not> direct))"
proof (intro conjI impI)
  assume "previous_symbol \<notin> set alphabet"
  then show "\<not> range_loop alphabet False previous_symbol upper symb"
    by (simp add: range_loop_lower_absent)
next
  assume "upper \<notin> set alphabet"
  then show "range_loop alphabet False previous_symbol upper symb =
      (symb \<in> set (dropWhile (\<lambda>a. a \<noteq> previous_symbol) alphabet))"
    by (rule range_loop_upper_absent)
next
  assume a: "idx < strlen pat \<and> rule_at pat idx = Inr (CHR ''-'') \<and>
    rule_at pat (idx + 1) = Inr upper \<and> previous_symbol \<notin> set alphabet"
  then have "\<not> range_loop alphabet False previous_symbol upper symb"
    by (simp add: range_loop_lower_absent)
  then show "checkSymbol_loop pat symb idx direct previous_symbol =
      checkSymbol_loop pat symb (idx + 2) direct upper"
    using a by (subst checkSymbol_loop.simps) simp
next
  assume a: "idx + 1 = strlen pat \<and> rule_at pat idx = Inr (CHR ''-'')"
  have lt: "idx < strlen pat" using a by simp
  have nxt: "rule_at pat (idx + 1) = Inr NUL"
    using a rule_at_strlen [of pat] by simp
  have fin: "checkSymbol_loop pat symb (idx + 2) direct NUL = Inr (\<not> direct)"
    using a by (subst checkSymbol_loop.simps) simp
  have r: "range_loop alphabet False previous_symbol NUL symb =
      (symb \<in> set (dropWhile (\<lambda>a. a \<noteq> previous_symbol) alphabet))"
    using NUL_not_in_alphabet by (rule range_loop_upper_absent)
  show "checkSymbol_loop pat symb idx direct previous_symbol =
      Inr (if symb \<in> set (dropWhile (\<lambda>a. a \<noteq> previous_symbol) alphabet)
           then direct else \<not> direct)"
    using lt a nxt fin r by (subst checkSymbol_loop.simps) simp
qed

theorem range_segment_absent_bound_witness:
  "\<not> range_loop alphabet False (CHR ''_'') (CHR ''c'') (CHR ''b'') \<and>
   range_loop alphabet False (CHR ''a'') (CHR ''_'') (CHR ''b'') \<and>
   checkSymbol_loop ''-c'' (CHR ''b'') 0 True NUL = checkSymbol_loop ''-c'' (CHR ''b'') 2 True (CHR ''c'') \<and>
   checkSymbol_loop ''a-'' (CHR ''7'') 1 True (CHR ''a'') = Inr True"
proof -
  have 1: "CHR ''_'' \<notin> set alphabet" by (simp add: alphabet_def)
  have 2: "CHR ''b'' \<in> set (dropWhile (\<lambda>a. a \<noteq> CHR ''a'') alphabet)"
    "CHR ''7'' \<in> set (dropWhile (\<lambda>a. a \<noteq> CHR ''a'') alphabet)"
    by (simp_all add: alphabet_def)
  have 3: "(0::nat) < strlen ''-c''" "rule_at ''-c'' 0 = Inr (CHR ''-'')"
    "rule_at ''-c'' (0 + 1) = Inr (CHR ''c'')"
    by (simp_all add: strlen_def rule_at_def NUL_def)
  have 4: "(1::nat) + 1 = strlen ''a-''" "rule_at ''a-'' 1 = Inr (CHR ''-'')"
    by (simp_all add: strlen_def rule_at_def NUL_def)
  have a: "\<not> range_loop alphabet False (CHR ''_'') (CHR ''c'') (CHR ''b'')"
    using range_segment_absent_bound [where previous_symbol = "CHR ''_''" and upper = "CHR ''c''"
        and symb = "CHR ''b''" and idx = 0 and pat = "''-c''" and direct = True] 1
    by blast
  have b: "range_loop alphabet False (CHR ''a'') (CHR ''_'') (CHR ''b'')"
    using range_segment_absent_bound [where previous_symbol = "CHR ''a''" and upper = "CHR ''_''"
        and symb = "CHR ''b''" and idx = 0 and pat = "''-c''" and direct = True] 1 2(1)
    by blast
  have c: "checkSymbol_loop ''-c'' (CHR ''b'') 0 True NUL =
      checkSymbol_loop ''-c'' (CHR ''b'') (0 + 2) True (CHR ''c'')"
    using range_segment_absent_bound [where previous_symbol = NUL and upper = "CHR ''c''"
        and symb = "CHR ''b''" and idx = 0 and pat = "''-c''" and direct = True]
      3 NUL_not_in_alphabet
    by blast
  have d: "checkSymbol_loop ''a-'' (CHR ''7'') 1 True (CHR ''a'') =
      Inr (if CHR ''7'' \<in> set (dropWhile (\<lambda>a. a \<noteq> CHR ''a'') alphabet)
           then True else \<not> True)"
    using range_segment_absent_bound [where previous_symbol = "CHR ''a''" and upper = NUL
        and symb = "CHR ''7''" and idx = 1 and pat = "''a-''" and direct = True] 4
    by blast
  show ?thesis
    using a b c d 2(2) by (simp add: numeral_2_eq_2)
qed

subsection \<open>The main loop\<close>

text \<open>No run of the loop reads past the terminator of the pattern.\<close>

lemma checkSymbol_loop_no_fault: "\<exists>b. checkSymbol_loop pat symb idx direct prev = Inr b"
proof (induction pat symb idx direct prev rule: checkSymbol_loop.induct)
  case (1 pat symb idx direct previous_symbol)
  show ?case
  proof (cases "idx < strlen pat")
    case False
    then show ?thesis by (subst checkSymbol_loop.simps) simp
  next
    case True
    obtain c where c: "rule_at pat idx = Inr c"
      using True rule_at_in_bounds [of idx pat] by auto
    obtain e where e: "rule_at pat (idx + 1) = Inr e"
      using True rule_at_in_bounds [of "idx + 1" pat] by auto
    have nn: "\<not> \<not> idx < strlen pat" using True by simp
    consider (caret) "c = CHR ''^''"
      | (dot) "c \<noteq> CHR ''^''" "c = CHR ''.''"
      | (dash) "c \<noteq> CHR ''^''" "c \<noteq> CHR ''.''" "c = CHR ''-''"
      | (esc) "c \<noteq> CHR ''^''" "c \<noteq> CHR ''.''" "c \<noteq> CHR ''-''" "c = backslash"
      | (lit) "c \<noteq> CHR ''^''" "c \<noteq> CHR ''.''" "c \<noteq> CHR ''-''" "c \<noteq> backslash"
      by blast
    then show ?thesis
    proof cases
      case caret
      from "1.IH"(1) [OF nn c caret] show ?thesis
        using True c caret by (subst checkSymbol_loop.simps) simp
    next
      case dot
      then show ?thesis
        using True c by (subst checkSymbol_loop.simps) simp
    next
      case dash
      show ?thesis
      proof (cases "range_loop alphabet False previous_symbol e symb")
        case True
        then show ?thesis
          using \<open>idx < strlen pat\<close> c e dash by (subst checkSymbol_loop.simps) simp
      next
        case False
        from "1.IH"(2) [OF nn c dash(1) dash(2) dash(3) e False] show ?thesis
          using \<open>idx < strlen pat\<close> c e dash False by (subst checkSymbol_loop.simps) simp
      qed
    next
      case esc
      show ?thesis
      proof (cases "escape_switch e symb")
        case True
        then show ?thesis
          using \<open>idx < strlen pat\<close> c e esc by (subst checkSymbol_loop.simps) simp
      next
        case False
        from "1.IH"(3) [OF nn c esc(1) esc(2) esc(3) esc(4) e False] show ?thesis
          using \<open>idx < strlen pat\<close> c e esc False by (subst checkSymbol_loop.simps) simp
      qed
    next
      case lit
      show ?thesis
      proof (cases "c = symb")
        case True
        then show ?thesis
          using \<open>idx < strlen pat\<close> c lit by (subst checkSymbol_loop.simps) simp
      next
        case False
        from "1.IH"(4) [OF nn c lit(1) lit(2) lit(3) lit(4) False] show ?thesis
          using \<open>idx < strlen pat\<close> c lit False by (subst checkSymbol_loop.simps) simp
      qed
    qed
  qed
qed

lemma loop_at_last_backslash:
  assumes "idx + 1 = strlen pat" and "rule_at pat idx = Inr backslash"
  shows "checkSymbol_loop pat symb idx direct prev = Inr (\<not> direct)"
proof -
  have lt: "idx < strlen pat" using assms(1) by simp
  have nxt: "rule_at pat (idx + 1) = Inr NUL"
    using assms(1) rule_at_strlen [of pat] by simp
  have fin: "checkSymbol_loop pat symb (idx + 2) direct NUL = Inr (\<not> direct)"
    using assms(1) by (subst checkSymbol_loop.simps) simp
  show ?thesis
    using lt assms(2) nxt fin backslash_distinct escape_switch_NUL
    by (subst checkSymbol_loop.simps) simp
qed

lemma single_backslash: "checkSymbol [backslash] symb = Inr False"
proof -
  have l: "strlen [backslash] = 1" by (simp add: strlen_def backslash_def NUL_def)
  have r: "rule_at [backslash] 0 = Inr backslash" by (simp add: rule_at_def)
  show ?thesis
    unfolding checkSymbol_def using loop_at_last_backslash [of 0 "[backslash]" symb True NUL] l r
    by simp
qed

lemma tokens_complete_step:
  assumes "idx < length p" and "tokens_complete (drop idx p)"
  shows "(p ! idx = CHR ''-'' \<or> p ! idx = backslash \<longrightarrow>
            idx + 1 < length p \<and> tokens_complete (drop (idx + 2) p)) \<and>
         (p ! idx \<noteq> CHR ''-'' \<and> p ! idx \<noteq> backslash \<longrightarrow> tokens_complete (drop (idx + 1) p))"
proof (cases "drop (idx + 1) p")
  case Nil
  hence "drop idx p = [p ! idx]"
    using assms(1) by (metis Cons_nth_drop_Suc Suc_eq_plus1)
  thus ?thesis using assms(2) Nil by auto
next
  case (Cons d rest)
  hence d: "drop idx p = p ! idx # d # rest"
    using assms(1) by (metis Cons_nth_drop_Suc Suc_eq_plus1)
  have lt: "idx + 1 < length p" using Cons by (cases "idx + 1 < length p") auto
  have rest: "drop (idx + 2) p = rest"
    using Cons lt by (metis Cons_nth_drop_Suc Suc_eq_plus1 add_2_eq_Suc' list.inject add_Suc_right)
  show ?thesis using assms(2) d lt rest Cons by auto
qed

lemma trailing_backslash_loop:
  "NUL \<notin> set p \<Longrightarrow> idx \<le> length p \<Longrightarrow> tokens_complete (drop idx p) \<Longrightarrow>
   checkSymbol_loop (p @ [backslash]) symb idx direct prev = checkSymbol_loop p symb idx direct prev"
proof (induction p symb idx direct prev rule: checkSymbol_loop.induct)
  case (1 pat symb idx direct previous_symbol)
  note nz = \<open>NUL \<notin> set pat\<close>
  have len: "strlen pat = length pat" using nz by (rule strlen_no_NUL)
  have "strlen [backslash] = 1" using backslash_distinct(4) by (simp add: strlen_def)
  hence len': "strlen (pat @ [backslash]) = length pat + 1"
    using nz by (simp add: strlen_append_no_NUL)
  show ?case
  proof (cases "idx < length pat")
    case False
    hence eq: "idx = length pat" using "1.prems"(2) by simp
    have "rule_at (pat @ [backslash]) idx = Inr backslash"
      using eq len' by (simp add: rule_at_def nth_append)
    hence "checkSymbol_loop (pat @ [backslash]) symb idx direct previous_symbol = Inr (\<not> direct)"
      using loop_at_last_backslash [of idx "pat @ [backslash]"] eq len' by simp
    moreover have "checkSymbol_loop pat symb idx direct previous_symbol = Inr (\<not> direct)"
      using eq len by (subst checkSymbol_loop.simps) simp
    ultimately show ?thesis by simp
  next
    case True
    define c where "c = pat ! idx"
    have c: "rule_at pat idx = Inr c" using nz True c_def by (simp add: rule_at_left)
    have c': "rule_at (pat @ [backslash]) idx = Inr c"
      using nz True c_def by (simp add: rule_at_append_left)
    have nn: "\<not> \<not> idx < strlen pat" using True len by simp
    have lt: "idx < strlen pat" using True len by simp
    have lt': "idx < strlen (pat @ [backslash])" using True len' by simp
    note step = tokens_complete_step [OF True "1.prems"(3), folded c_def]
    consider (caret) "c = CHR ''^''"
      | (dot) "c \<noteq> CHR ''^''" "c = CHR ''.''"
      | (dash) "c \<noteq> CHR ''^''" "c \<noteq> CHR ''.''" "c = CHR ''-''"
      | (esc) "c \<noteq> CHR ''^''" "c \<noteq> CHR ''.''" "c \<noteq> CHR ''-''" "c = backslash"
      | (lit) "c \<noteq> CHR ''^''" "c \<noteq> CHR ''.''" "c \<noteq> CHR ''-''" "c \<noteq> backslash"
      by blast
    then show ?thesis
    proof cases
      case caret
      have tc: "tokens_complete (drop (idx + 1) pat)"
        using step caret backslash_distinct(1) by auto
      have le: "idx + 1 \<le> length pat" using True by simp
      from "1.IH"(1) [OF nn c caret nz le tc] show ?thesis
        using lt lt' c c' caret
        by (subst checkSymbol_loop.simps, subst (2) checkSymbol_loop.simps) simp
    next
      case dot
      then show ?thesis
        using lt lt' c c'
        by (subst checkSymbol_loop.simps, subst (2) checkSymbol_loop.simps) simp
    next
      case dash
      have lt1: "idx + 1 < length pat" and tc: "tokens_complete (drop (idx + 2) pat)"
        using step dash by auto
      define e where "e = pat ! (idx + 1)"
      have e: "rule_at pat (idx + 1) = Inr e" using nz lt1 e_def by (simp add: rule_at_left)
      have e': "rule_at (pat @ [backslash]) (idx + 1) = Inr e"
        using nz lt1 e_def by (simp add: rule_at_append_left)
      have le: "idx + 2 \<le> length pat" using lt1 by simp
      show ?thesis
      proof (cases "range_loop alphabet False previous_symbol e symb")
        case True
        then show ?thesis
          using lt lt' c c' e e' dash
          by (subst checkSymbol_loop.simps, subst (2) checkSymbol_loop.simps) simp
      next
        case False
        from "1.IH"(2) [OF nn c dash(1) dash(2) dash(3) e False nz le tc] show ?thesis
          using lt lt' c c' e e' dash False
          by (subst checkSymbol_loop.simps, subst (2) checkSymbol_loop.simps) simp
      qed
    next
      case esc
      have lt1: "idx + 1 < length pat" and tc: "tokens_complete (drop (idx + 2) pat)"
        using step esc by auto
      define e where "e = pat ! (idx + 1)"
      have e: "rule_at pat (idx + 1) = Inr e" using nz lt1 e_def by (simp add: rule_at_left)
      have e': "rule_at (pat @ [backslash]) (idx + 1) = Inr e"
        using nz lt1 e_def by (simp add: rule_at_append_left)
      have le: "idx + 2 \<le> length pat" using lt1 by simp
      show ?thesis
      proof (cases "escape_switch e symb")
        case True
        then show ?thesis
          using lt lt' c c' e e' esc
          by (subst checkSymbol_loop.simps, subst (2) checkSymbol_loop.simps) simp
      next
        case False
        from "1.IH"(3) [OF nn c esc(1) esc(2) esc(3) esc(4) e False nz le tc] show ?thesis
          using lt lt' c c' e e' esc False
          by (subst checkSymbol_loop.simps, subst (2) checkSymbol_loop.simps) simp
      qed
    next
      case lit
      have tc: "tokens_complete (drop (idx + 1) pat)" using step lit by auto
      have le: "idx + 1 \<le> length pat" using True by simp
      show ?thesis
      proof (cases "c = symb")
        case True
        then show ?thesis
          using lt lt' c c' lit
          by (subst checkSymbol_loop.simps, subst (2) checkSymbol_loop.simps) simp
      next
        case False
        from "1.IH"(4) [OF nn c lit(1) lit(2) lit(3) lit(4) False nz le tc] show ?thesis
          using lt lt' c c' lit False
          by (subst checkSymbol_loop.simps, subst (2) checkSymbol_loop.simps) simp
      qed
    qed
  qed
qed

lemma trailing_backslash_no_match:
  "NUL \<notin> set p \<Longrightarrow> tokens_complete p \<Longrightarrow>
   checkSymbol (p @ [backslash]) symb = checkSymbol p symb"
  unfolding checkSymbol_def using trailing_backslash_loop [of p 0 symb True NUL] by simp

text \<open>
  C6: for a pattern that ends in a lone backslash the predicate reads no position past
  the end of the pattern string (the read after the backslash is the terminator, which
  belongs to the string) and the trailing backslash contributes no match: from the loop
  state that reaches it the result is the fallback \<open>!direct\<close>, so the predicate equals the
  one of the pattern without the trailing backslash. For the pattern that is a single
  backslash the predicate is false on every symbol.
\<close>

theorem trailing_backslash_safe:
  "(\<exists>b. checkSymbol pat symb = Inr b) \<and>
   (idx + 1 = strlen pat \<and> rule_at pat idx = Inr backslash \<longrightarrow>
      checkSymbol_loop pat symb idx direct previous_symbol = Inr (\<not> direct)) \<and>
   (NUL \<notin> set p \<and> tokens_complete p \<longrightarrow>
      checkSymbol (p @ [backslash]) symb = checkSymbol p symb) \<and>
   checkSymbol [backslash] symb = Inr False"
proof (intro conjI impI)
  show "\<exists>b. checkSymbol pat symb = Inr b"
    unfolding checkSymbol_def by (rule checkSymbol_loop_no_fault)
next
  assume "idx + 1 = strlen pat \<and> rule_at pat idx = Inr backslash"
  then show "checkSymbol_loop pat symb idx direct previous_symbol = Inr (\<not> direct)"
    using loop_at_last_backslash [of idx pat symb direct previous_symbol] by blast
next
  assume "NUL \<notin> set p \<and> tokens_complete p"
  then show "checkSymbol (p @ [backslash]) symb = checkSymbol p symb"
    using trailing_backslash_no_match [of p symb] by blast
next
  show "checkSymbol [backslash] symb = Inr False"
    by (rule single_backslash)
qed

theorem trailing_backslash_safe_witness:
  "checkSymbol (''ab'' @ [backslash]) (CHR ''c'') = Inr False \<and>
   checkSymbol_loop (''ab'' @ [backslash]) (CHR ''c'') 2 True (CHR ''b'') = Inr False \<and>
   checkSymbol [backslash] (CHR ''c'') = Inr False"
proof -
  have 1: "(2::nat) + 1 = strlen (''ab'' @ [backslash])"
    "rule_at (''ab'' @ [backslash]) 2 = Inr backslash"
    by (simp_all add: strlen_def rule_at_def NUL_def backslash_def)
  have 2: "NUL \<notin> set ''ab''" "tokens_complete ''ab''"
    by (simp_all add: NUL_def backslash_def)
  have 3: "checkSymbol ''ab'' (CHR ''c'') = Inr False"
    by (simp add: checkSymbol_def checkSymbol_loop.simps strlen_def rule_at_def NUL_def
        backslash_def)
  have "checkSymbol_loop (''ab'' @ [backslash]) (CHR ''c'') 2 True (CHR ''b'') = Inr (\<not> True)"
    and "checkSymbol (''ab'' @ [backslash]) (CHR ''c'') = checkSymbol ''ab'' (CHR ''c'')"
    and "checkSymbol [backslash] (CHR ''c'') = Inr False"
    using trailing_backslash_safe [where pat = "''ab'' @ [backslash]" and symb = "CHR ''c''"
        and idx = 2 and direct = True and previous_symbol = "CHR ''b''" and p = "''ab''"]
      1 2
    by blast+
  then show ?thesis
    using 3 by simp
qed

text \<open>
  C10: the predicate compiled from the empty pattern rejects every symbol, and the
  predicate compiled from the pattern \<open>^\<close> accepts every symbol.
\<close>

theorem checkSymbol_empty_and_caret:
  "checkSymbol [] symb = Inr False \<and> checkSymbol ''^'' symb = Inr True \<and>
   \<not> rule_function [] symb \<and> rule_function ''^'' symb"
  by (simp add: rule_function_def checkSymbol_def checkSymbol_loop.simps strlen_def rule_at_def
      NUL_def)

theorem checkSymbol_empty_and_caret_witness:
  "checkSymbol [] (CHR ''a'') = Inr False \<and> checkSymbol ''^'' (CHR ''a'') = Inr True \<and>
   \<not> rule_function [] (CHR ''a'') \<and> rule_function ''^'' (CHR ''a'')"
  using checkSymbol_empty_and_caret [of "CHR ''a''"] by simp

section \<open>Properties of the transition engine\<close>

subsection \<open>The silent test\<close>

lemma not_silent_expr_eq: "not_silent_expr fl = (\<not> carries_SILENT fl)"
proof -
  have "fl AND 1 = of_bool (odd fl)" by (simp add: and_one_eq mod_2_eq_odd)
  then show ?thesis
    by (cases "odd fl") (simp_all add: not_silent_expr_def carries_SILENT_def E_SILENT_def)
qed

subsection \<open>\<open>getEdge\<close>\<close>

lemma getEdge_loop_first:
  "first_accepting es cond i \<Longrightarrow> getEdge_loop es cond = Some (es ! i)"
proof (induction es arbitrary: i)
  case Nil
  then show ?case by (simp add: first_accepting_def)
next
  case (Cons e es)
  show ?case
  proof (cases i)
    case 0
    then show ?thesis using Cons.prems by (simp add: first_accepting_def)
  next
    case (Suc k)
    have "first_accepting es cond k"
      using Cons.prems Suc by (auto simp: first_accepting_def)
    moreover have "\<not> rule e cond"
      using Cons.prems Suc by (auto simp: first_accepting_def)
    ultimately show ?thesis using Cons.IH [of k] Suc by simp
  qed
qed

lemma getEdge_loop_None:
  "(getEdge_loop es cond = None) = (\<forall>e \<in> set es. \<not> rule e cond)"
  by (induction es) auto

lemma getEdge_loop_Some:
  "getEdge_loop es cond = Some e \<Longrightarrow> \<exists>i. first_accepting es cond i \<and> e = es ! i"
proof (induction es)
  case Nil
  then show ?case by simp
next
  case (Cons a es)
  show ?case
  proof (cases "rule a cond")
    case True
    then have "first_accepting (a # es) cond 0 \<and> e = (a # es) ! 0"
      using Cons.prems by (simp add: first_accepting_def)
    then show ?thesis by blast
  next
    case False
    then obtain i where i: "first_accepting es cond i" "e = es ! i"
      using Cons by auto
    have "first_accepting (a # es) cond (Suc i)"
      using i(1) False by (auto simp: first_accepting_def less_Suc_eq_0_disj)
    then show ?thesis using i(2) by (intro exI [of _ "Suc i"]) simp
  qed
qed

lemma getEdge_fst:
  "fst (getEdge fsm cond) =
     (case getEdge_loop (edges_of fsm (current_state fsm)) cond of
        Some e \<Rightarrow> Some e
      | None \<Rightarrow> getEdge_loop (global_edges fsm) cond)"
  by (simp add: getEdge_def edges_index_def edges_of_def split: option.splits)

lemma getEdge_snd:
  "snd (getEdge fsm cond) =
     (if edges fsm (current_state fsm) = None
      then fsm\<lparr>edges := (edges fsm)(current_state fsm \<mapsto> [])\<rparr> else fsm)"
  by (simp add: getEdge_def edges_index_def split: option.splits)

lemma getEdge_snd_fields:
  "default_state (snd (getEdge fsm cond)) = default_state fsm"
  "current_state (snd (getEdge fsm cond)) = current_state fsm"
  "previous_state (snd (getEdge fsm cond)) = previous_state fsm"
  "possible_states (snd (getEdge fsm cond)) = possible_states fsm"
  "global_edges (snd (getEdge fsm cond)) = global_edges fsm"
  "state_names (snd (getEdge fsm cond)) = state_names fsm"
  by (simp_all add: getEdge_snd)

lemma getEdge_snd_edges_of:
  "edges_of (snd (getEdge fsm cond)) s = edges_of fsm s"
  by (simp add: getEdge_snd edges_of_def)

lemma getEdge_snd_edges:
  "edges (snd (getEdge fsm cond)) s = edges fsm s \<or>
   (edges fsm s = None \<and> edges (snd (getEdge fsm cond)) s = Some [] \<and> s = current_state fsm)"
  by (simp add: getEdge_snd)

lemma changeState_fields:
  "default_state (changeState m d) = default_state m"
  "current_state (changeState m d) = d"
  "previous_state (changeState m d) = previous_state m"
  "possible_states (changeState m d) = possible_states m"
  "global_edges (changeState m d) = global_edges m"
  "state_names (changeState m d) = state_names m"
  "edges (changeState m d) = edges m"
  "edges_of (changeState m d) s = edges_of m s"
  by (simp_all add: changeState_def edges_of_def)

lemma first_getEdge_fields:
  "default_state (snd (first_getEdge fsm cond)) = default_state fsm"
  "current_state (snd (first_getEdge fsm cond)) = current_state fsm"
  "previous_state (snd (first_getEdge fsm cond)) = current_state fsm"
  "possible_states (snd (first_getEdge fsm cond)) = possible_states fsm"
  "global_edges (snd (first_getEdge fsm cond)) = global_edges fsm"
  "state_names (snd (first_getEdge fsm cond)) = state_names fsm"
  by (simp_all add: first_getEdge_def getEdge_snd_fields)

lemma second_getEdge_fields:
  "default_state (snd (second_getEdge fsm cond e1)) = default_state fsm"
  "current_state (snd (second_getEdge fsm cond e1)) = destination e1"
  "previous_state (snd (second_getEdge fsm cond e1)) = current_state fsm"
  "possible_states (snd (second_getEdge fsm cond e1)) = possible_states fsm"
  "global_edges (snd (second_getEdge fsm cond e1)) = global_edges fsm"
  "state_names (snd (second_getEdge fsm cond e1)) = state_names fsm"
  by (simp_all add: second_getEdge_def getEdge_snd_fields changeState_def first_getEdge_fields)

lemma first_getEdge_fst:
  "fst (first_getEdge fsm cond) =
     (case getEdge_loop (edges_of fsm (current_state fsm)) cond of
        Some e \<Rightarrow> Some e
      | None \<Rightarrow> getEdge_loop (global_edges fsm) cond)"
  by (simp add: first_getEdge_def getEdge_fst edges_of_def cong: option.case_cong)

lemma first_getEdge_edges_of:
  "edges_of (snd (first_getEdge fsm cond)) s = edges_of fsm s"
  by (simp add: first_getEdge_def getEdge_snd_edges_of) (simp add: edges_of_def)

lemma second_getEdge_fst:
  "fst (second_getEdge fsm cond e1) =
     (case getEdge_loop (edges_of fsm (destination e1)) cond of
        Some e \<Rightarrow> Some e
      | None \<Rightarrow> getEdge_loop (global_edges fsm) cond)"
proof -
  let ?m = "changeState (snd (first_getEdge fsm cond)) (destination e1)"
  have "edges_of ?m (current_state ?m) = edges_of fsm (destination e1)"
    using first_getEdge_edges_of [of fsm cond "destination e1"]
    by (simp add: changeState_def edges_of_def)
  moreover have "global_edges ?m = global_edges fsm"
    by (simp add: changeState_def first_getEdge_fields)
  ultimately show ?thesis
    by (simp add: second_getEdge_def getEdge_fst cong: option.case_cong)
qed

lemma second_getEdge_edges_of:
  "edges_of (snd (second_getEdge fsm cond e1)) s = edges_of fsm s"
  using first_getEdge_edges_of [of fsm cond s]
  by (simp add: second_getEdge_def getEdge_snd_edges_of) (simp add: edges_of_def changeState_def)

lemma first_getEdge_edges:
  "edges (snd (first_getEdge fsm cond)) s = edges fsm s \<or>
   (edges fsm s = None \<and> edges (snd (first_getEdge fsm cond)) s = Some [] \<and>
    s = current_state fsm)"
  by (simp add: first_getEdge_def getEdge_snd)

lemma second_getEdge_edges:
  "edges (snd (second_getEdge fsm cond e1)) s = edges fsm s \<or>
   (edges fsm s = None \<and> edges (snd (second_getEdge fsm cond e1)) s = Some [] \<and>
    (s = current_state fsm \<or> s = destination e1))"
proof -
  let ?m = "changeState (snd (first_getEdge fsm cond)) (destination e1)"
  have m: "edges ?m = edges (snd (first_getEdge fsm cond))" "current_state ?m = destination e1"
    by (simp_all add: changeState_def)
  have "edges (snd (getEdge ?m cond)) s = edges ?m s \<or>
    (edges ?m s = None \<and> edges (snd (getEdge ?m cond)) s = Some [] \<and> s = current_state ?m)"
    by (rule getEdge_snd_edges)
  then show ?thesis
    using first_getEdge_edges [of fsm cond s] m
    by (auto simp: second_getEdge_def)
qed

subsection \<open>The ways through \<open>process\<close>\<close>

lemma process_none:
  assumes "fst (first_getEdge fsm cond) = None"
  shows "process fsm cond = (False, snd (first_getEdge fsm cond))"
    and "process_taken fsm cond = []"
proof -
  obtain f1 where "getEdge (fsm\<lparr>previous_state := current_state fsm\<rparr>) cond = (None, f1)"
    using assms by (cases "first_getEdge fsm cond") (simp add: first_getEdge_def)
  then show "process fsm cond = (False, snd (first_getEdge fsm cond))"
    and "process_taken fsm cond = []"
    by (simp_all add: process_def process_taken_def first_getEdge_def)
qed

lemma process_one_away:
  assumes "fst (first_getEdge fsm cond) = Some e1"
    and "destination e1 \<noteq> default_state fsm"
  shows "process fsm cond =
           (not_silent_expr (flags e1), changeState (snd (first_getEdge fsm cond)) (destination e1))"
    and "process_taken fsm cond = [e1]"
proof -
  obtain f1 where g: "getEdge (fsm\<lparr>previous_state := current_state fsm\<rparr>) cond = (Some e1, f1)"
    using assms(1) by (cases "first_getEdge fsm cond") (simp add: first_getEdge_def)
  have "default_state f1 = default_state fsm"
    using first_getEdge_fields(1) [of fsm cond] g by (simp add: first_getEdge_def)
  then show "process fsm cond =
           (not_silent_expr (flags e1), changeState (snd (first_getEdge fsm cond)) (destination e1))"
    and "process_taken fsm cond = [e1]"
    using g assms(2)
    by (simp_all add: process_def process_taken_def first_getEdge_def changeState_def)
qed

lemma process_one_default:
  assumes "fst (first_getEdge fsm cond) = Some e1"
    and "destination e1 = default_state fsm"
    and "fst (second_getEdge fsm cond e1) = None"
  shows "process fsm cond = (not_silent_expr (flags e1), snd (second_getEdge fsm cond e1))"
    and "process_taken fsm cond = [e1]"
proof -
  obtain f1 where g: "getEdge (fsm\<lparr>previous_state := current_state fsm\<rparr>) cond = (Some e1, f1)"
    using assms(1) by (cases "first_getEdge fsm cond") (simp add: first_getEdge_def)
  have d: "default_state f1 = default_state fsm"
    using first_getEdge_fields(1) [of fsm cond] g by (simp add: first_getEdge_def)
  obtain f3 where g2: "getEdge (f1\<lparr>current_state := destination e1\<rparr>) cond = (None, f3)"
    using assms(3) g
    by (cases "second_getEdge fsm cond e1")
      (simp add: second_getEdge_def first_getEdge_def changeState_def)
  show "process fsm cond = (not_silent_expr (flags e1), snd (second_getEdge fsm cond e1))"
    and "process_taken fsm cond = [e1]"
    using g g2 d assms(2)
    by (simp_all add: process_def process_taken_def first_getEdge_def second_getEdge_def
        changeState_def)
qed

lemma process_two:
  assumes "fst (first_getEdge fsm cond) = Some e1"
    and "destination e1 = default_state fsm"
    and "fst (second_getEdge fsm cond e1) = Some e2"
  shows "process fsm cond =
           (not_silent_expr (flags e1) \<or> not_silent_expr (flags e2),
            changeState (snd (second_getEdge fsm cond e1)) (destination e2))"
    and "process_taken fsm cond = [e1, e2]"
proof -
  obtain f1 where g: "getEdge (fsm\<lparr>previous_state := current_state fsm\<rparr>) cond = (Some e1, f1)"
    using assms(1) by (cases "first_getEdge fsm cond") (simp add: first_getEdge_def)
  have d: "default_state f1 = default_state fsm"
    using first_getEdge_fields(1) [of fsm cond] g by (simp add: first_getEdge_def)
  obtain f3 where g2: "getEdge (f1\<lparr>current_state := destination e1\<rparr>) cond = (Some e2, f3)"
    using assms(3) g
    by (cases "second_getEdge fsm cond e1")
      (simp add: second_getEdge_def first_getEdge_def changeState_def)
  show "process fsm cond =
           (not_silent_expr (flags e1) \<or> not_silent_expr (flags e2),
            changeState (snd (second_getEdge fsm cond e1)) (destination e2))"
    and "process_taken fsm cond = [e1, e2]"
    using g g2 d assms(2)
    by (simp_all add: process_def process_taken_def first_getEdge_def second_getEdge_def
        changeState_def)
qed

text \<open>Every call of \<open>process\<close> goes one of four ways.\<close>

lemma process_ways:
  obtains (none) "fst (first_getEdge fsm cond) = None"
  | (away) e1 where "fst (first_getEdge fsm cond) = Some e1"
      "destination e1 \<noteq> default_state fsm"
  | (stay) e1 where "fst (first_getEdge fsm cond) = Some e1"
      "destination e1 = default_state fsm" "fst (second_getEdge fsm cond e1) = None"
  | (two) e1 e2 where "fst (first_getEdge fsm cond) = Some e1"
      "destination e1 = default_state fsm" "fst (second_getEdge fsm cond e1) = Some e2"
proof (cases "fst (first_getEdge fsm cond)")
  case None
  then show ?thesis by (rule none)
next
  case first: (Some e1)
  show ?thesis
  proof (cases "destination e1 = default_state fsm")
    case False
    with first show ?thesis by (rule away)
  next
    case True
    show ?thesis
    proof (cases "fst (second_getEdge fsm cond e1)")
      case None
      with first True show ?thesis by (rule stay)
    next
      case (Some e2)
      with first True show ?thesis by (rule two)
    qed
  qed
qed

text \<open>
  \<open>process_taken\<close> agrees with what \<open>process\<close> does to the state: the state after the
  call is the destination of the last edge taken, or the state before if none was.
\<close>

lemma process_taken_states:
  "current_state (snd (process fsm cond)) =
     foldl (\<lambda>s e. destination e) (current_state fsm) (process_taken fsm cond)"
proof (cases rule: process_ways [of fsm cond])
  case none
  then show ?thesis by (simp add: process_none first_getEdge_fields)
next
  case (away e1)
  then show ?thesis by (simp add: process_one_away changeState_def)
next
  case (stay e1)
  then show ?thesis by (simp add: process_one_default second_getEdge_fields)
next
  case (two e1 e2)
  then show ?thesis by (simp add: process_two changeState_def)
qed

lemma process_previous_state:
  "previous_state (snd (process fsm cond)) = current_state fsm"
proof (cases rule: process_ways [of fsm cond])
  case none
  then show ?thesis by (simp add: process_none first_getEdge_fields)
next
  case (away e1)
  then show ?thesis by (simp add: process_one_away changeState_def first_getEdge_fields)
next
  case (stay e1)
  then show ?thesis by (simp add: process_one_default second_getEdge_fields)
next
  case (two e1 e2)
  then show ?thesis by (simp add: process_two changeState_def second_getEdge_fields)
qed

lemma createEdge_eq:
  "createEdge fsm src dst r lab fl =
     fsm\<lparr>edges := (edges fsm)(src \<mapsto> edges_of fsm src @ [Edge_new src dst r lab fl]),
         possible_states := insert dst (insert src (possible_states fsm))\<rparr>"
  by (simp add: createEdge_def edges_index_def edges_of_def Let_def split: option.splits)

lemma createGlobalEdge_eq:
  "createGlobalEdge fsm dst r lab fl =
     fsm\<lparr>global_edges :=
           global_edges fsm @ [Edge_new (default_state fsm) dst r lab (fl OR E_GLOBAL)],
         possible_states := insert dst (possible_states fsm)\<rparr>"
  by (simp add: createGlobalEdge_def Let_def)

lemmas demo_defs = demo_reentry_def demo_silent_def demo_priority_def
  createEdge_eq createGlobalEdge_eq FSM_start_def FSM_default_def Edge_new_def edges_of_def

lemmas run_defs = process_def process_taken_def getEdge_def edges_index_def changeState_def
  Let_def

text \<open>
  The edges \<open>process_taken\<close> lists are edges the machine holds and that accept the
  condition: each is what \<open>getEdge\<close> selected, at the state the call started in or at
  the default state, or among the global edges.
\<close>

lemma getEdge_loop_accepts:
  "getEdge_loop es cond = Some e \<Longrightarrow> e \<in> set es \<and> rule e cond"
  by (induction es) (auto split: if_splits)

lemma first_getEdge_selected:
  assumes "fst (first_getEdge fsm cond) = Some e"
  shows "rule e cond \<and>
         e \<in> set (edges_of fsm (current_state fsm)) \<union> set (global_edges fsm)"
  using assms getEdge_loop_accepts [of "edges_of fsm (current_state fsm)" cond e]
    getEdge_loop_accepts [of "global_edges fsm" cond e]
  by (auto simp: first_getEdge_fst split: option.splits)

lemma second_getEdge_selected:
  assumes "fst (second_getEdge fsm cond e1) = Some e"
  shows "rule e cond \<and>
         e \<in> set (edges_of fsm (destination e1)) \<union> set (global_edges fsm)"
  using assms getEdge_loop_accepts [of "edges_of fsm (destination e1)" cond e]
    getEdge_loop_accepts [of "global_edges fsm" cond e]
  by (auto simp: second_getEdge_fst split: option.splits)

lemma process_taken_selected:
  "list_all (\<lambda>e. rule e cond \<and>
       e \<in> set (edges_of fsm (current_state fsm)) \<union> set (edges_of fsm (default_state fsm)) \<union>
           set (global_edges fsm)) (process_taken fsm cond)"
proof (cases rule: process_ways [of fsm cond])
  case none
  then show ?thesis by (simp add: process_none)
next
  case (away e1)
  then show ?thesis
    using first_getEdge_selected [of fsm cond e1] by (auto simp add: process_one_away)
next
  case (stay e1)
  then show ?thesis
    using first_getEdge_selected [of fsm cond e1] by (auto simp add: process_one_default)
next
  case (two e1 e2)
  then show ?thesis
    using first_getEdge_selected [of fsm cond e1] second_getEdge_selected [of fsm cond e1 e2]
    by (auto simp add: process_two)
qed

lemma process_result_taken:
  "fst (process fsm cond) =
     list_ex (\<lambda>e. \<not> carries_SILENT (flags e)) (process_taken fsm cond) \<and>
   length (process_taken fsm cond) \<le> 2"
proof (cases rule: process_ways [of fsm cond])
  case none
  then show ?thesis by (simp add: process_none)
next
  case (away e1)
  then show ?thesis by (simp add: process_one_away not_silent_expr_eq)
next
  case (stay e1)
  then show ?thesis by (simp add: process_one_default not_silent_expr_eq)
next
  case (two e1 e2)
  then show ?thesis by (simp add: process_two not_silent_expr_eq)
qed

text \<open>
  C2: a call of \<open>process\<close> returns false when every edge taken during the call carries
  the SILENT flag, and true when at least one edge taken does not: the result is the
  disjunction, over the edges taken, of "the edge is not SILENT-flagged". The edges
  taken are the transitions the call applies to the machine it returns: the state after
  the call is the state before moved along their destinations in order, the previous
  state is the state before, there are at most two of them, and each accepts the symbol
  and is an edge of the machine.
\<close>

theorem process_result_is_or_of_not_silent:
  "((\<forall>e \<in> set (process_taken fsm cond). carries_SILENT (flags e)) \<longrightarrow> \<not> fst (process fsm cond)) \<and>
   ((\<exists>e \<in> set (process_taken fsm cond). \<not> carries_SILENT (flags e)) \<longrightarrow> fst (process fsm cond)) \<and>
   fst (process fsm cond) = list_ex (\<lambda>e. \<not> carries_SILENT (flags e)) (process_taken fsm cond) \<and>
   current_state (snd (process fsm cond)) =
     foldl (\<lambda>s e. destination e) (current_state fsm) (process_taken fsm cond) \<and>
   previous_state (snd (process fsm cond)) = current_state fsm \<and>
   length (process_taken fsm cond) \<le> 2 \<and>
   list_all (\<lambda>e. rule e cond \<and>
       e \<in> set (edges_of fsm (current_state fsm)) \<union> set (edges_of fsm (default_state fsm)) \<union>
           set (global_edges fsm)) (process_taken fsm cond)"
  using process_result_taken [where fsm = fsm and cond = cond]
    process_taken_states [where fsm = fsm and cond = cond]
    process_previous_state [where fsm = fsm and cond = cond]
    process_taken_selected [where fsm = fsm and cond = cond]
  by (simp add: list_ex_iff)

theorem process_result_is_or_of_not_silent_witness:
  "\<not> fst (process demo_silent (CHR ''x'')) \<and>
   current_state (snd (process demo_silent (CHR ''x''))) = 1 \<and>
   fst (process demo_reentry (CHR ''x'')) \<and>
   current_state (snd (process demo_reentry (CHR ''x''))) = 2"
proof -
  have t1: "process_taken demo_silent (CHR ''x'') =
      [Edge_new 0 1 (\<lambda>c. c = CHR ''x'') ''x'' E_SILENT]"
    by (simp add: demo_defs run_defs)
  have t2: "process_taken demo_reentry (CHR ''x'') =
      [Edge_new 1 0 (\<lambda>c. c = CHR ''x'') ''x'' E_SILENT,
       Edge_new 0 2 (\<lambda>c. c = CHR ''x'') ''x'' E_NONE]"
    by (simp add: demo_defs run_defs)
  have c: "current_state demo_silent = 0" "current_state demo_reentry = 1"
    by (simp_all add: demo_defs)
  have f: "carries_SILENT E_SILENT" "\<not> carries_SILENT E_NONE"
    by (simp_all add: carries_SILENT_def E_SILENT_def E_NONE_def)
  show ?thesis
    using process_result_is_or_of_not_silent [of demo_silent "CHR ''x''"]
      process_result_is_or_of_not_silent [of demo_reentry "CHR ''x''"] t1 t2 c f
    by (simp add: Edge_new_def)
qed

text \<open>
  C3: let \<open>A\<close> be the first edge at state \<open>S\<close> that accepts \<open>x\<close>, leading to the default
  state, and \<open>B\<close> the first edge at the default state that accepts \<open>x\<close>, leading to \<open>T\<close>.
  Then one call of \<open>process\<close> on \<open>x\<close> in state \<open>S\<close> ends in \<open>T\<close> with the previous state
  \<open>S\<close>. (That \<open>S\<close> differs from the default state is not needed.)
\<close>

theorem process_default_reentry:
  assumes "current_state fsm = S"
    and "first_accepting (edges_of fsm S) x i"
    and "destination (edges_of fsm S ! i) = default_state fsm"
    and "first_accepting (edges_of fsm (default_state fsm)) x k"
    and "destination (edges_of fsm (default_state fsm) ! k) = T"
  shows "current_state (snd (process fsm x)) = T \<and> previous_state (snd (process fsm x)) = S"
proof -
  let ?A = "edges_of fsm S ! i" and ?B = "edges_of fsm (default_state fsm) ! k"
  have 1: "fst (first_getEdge fsm x) = Some ?A"
    using assms(1,2) by (simp add: first_getEdge_fst getEdge_loop_first)
  have 2: "fst (second_getEdge fsm x ?A) = Some ?B"
    using assms(3,4) by (simp add: second_getEdge_fst getEdge_loop_first)
  show ?thesis
    using process_two [OF 1 assms(3) 2] assms(1,5)
    by (simp add: changeState_def second_getEdge_fields)
qed

theorem process_default_reentry_witness:
  "current_state (snd (process demo_reentry (CHR ''x''))) = 2 \<and>
   previous_state (snd (process demo_reentry (CHR ''x''))) = 1"
proof -
  have 1: "current_state demo_reentry = 1" by (simp add: demo_defs)
  have 2: "first_accepting (edges_of demo_reentry 1) (CHR ''x'') 0"
    by (simp add: demo_defs first_accepting_def)
  have 3: "destination (edges_of demo_reentry 1 ! 0) = default_state demo_reentry"
    by (simp add: demo_defs)
  have 4: "first_accepting (edges_of demo_reentry (default_state demo_reentry)) (CHR ''x'') 0"
    by (simp add: demo_defs first_accepting_def)
  have 5: "destination (edges_of demo_reentry (default_state demo_reentry) ! 0) = 2"
    by (simp add: demo_defs)
  show ?thesis by (rule process_default_reentry [OF 1 2 3 4 5])
qed

text \<open>
  C4: \<open>getEdge\<close> selects the first edge, in registration order, among the local edges of
  the current state that accept the symbol; the global edges are consulted, in
  registration order, only when no local edge accepts it. When a local edge accepts,
  it is the first edge \<open>process\<close> takes whatever the global edges accept, and its
  destination is the state reached unless that is the default state.
\<close>

theorem getEdge_local_before_global:
  "(first_accepting (edges_of fsm (current_state fsm)) cond i \<longrightarrow>
      fst (getEdge fsm cond) = Some (edges_of fsm (current_state fsm) ! i) \<and>
      hd (process_taken fsm cond) = edges_of fsm (current_state fsm) ! i \<and>
      process_taken fsm cond \<noteq> [] \<and>
      (destination (edges_of fsm (current_state fsm) ! i) \<noteq> default_state fsm \<longrightarrow>
         current_state (snd (process fsm cond)) =
           destination (edges_of fsm (current_state fsm) ! i))) \<and>
   ((\<forall>e \<in> set (edges_of fsm (current_state fsm)). \<not> rule e cond) \<and>
      first_accepting (global_edges fsm) cond k \<longrightarrow>
      fst (getEdge fsm cond) = Some (global_edges fsm ! k)) \<and>
   ((\<forall>e \<in> set (edges_of fsm (current_state fsm)). \<not> rule e cond) \<and>
      (\<forall>e \<in> set (global_edges fsm). \<not> rule e cond) \<longrightarrow>
      fst (getEdge fsm cond) = None)"
proof (intro conjI impI)
  assume a: "first_accepting (edges_of fsm (current_state fsm)) cond i"
  let ?A = "edges_of fsm (current_state fsm) ! i"
  show "fst (getEdge fsm cond) = Some ?A"
    using a by (simp add: getEdge_fst getEdge_loop_first)
  have 1: "fst (first_getEdge fsm cond) = Some ?A"
    using a by (simp add: first_getEdge_fst getEdge_loop_first)
  have t: "process_taken fsm cond \<noteq> [] \<and> hd (process_taken fsm cond) = ?A"
  proof (cases rule: process_ways [of fsm cond])
    case none
    then show ?thesis using 1 by simp
  next
    case (away e1)
    then show ?thesis using 1 by (simp add: process_one_away)
  next
    case (stay e1)
    then show ?thesis using 1 by (simp add: process_one_default)
  next
    case (two e1 e2)
    then show ?thesis using 1 by (simp add: process_two)
  qed
  then show "hd (process_taken fsm cond) = ?A" and "process_taken fsm cond \<noteq> []"
    by simp_all
  assume "destination ?A \<noteq> default_state fsm"
  then show "current_state (snd (process fsm cond)) = destination ?A"
    using 1 by (simp add: process_one_away changeState_def)
next
  assume "(\<forall>e \<in> set (edges_of fsm (current_state fsm)). \<not> rule e cond) \<and>
      first_accepting (global_edges fsm) cond k"
  then show "fst (getEdge fsm cond) = Some (global_edges fsm ! k)"
    by (simp add: getEdge_fst getEdge_loop_None [THEN iffD2] getEdge_loop_first)
next
  assume "(\<forall>e \<in> set (edges_of fsm (current_state fsm)). \<not> rule e cond) \<and>
      (\<forall>e \<in> set (global_edges fsm). \<not> rule e cond)"
  then show "fst (getEdge fsm cond) = None"
    by (simp add: getEdge_fst getEdge_loop_None [THEN iffD2])
qed

theorem getEdge_local_before_global_witness:
  "fst (getEdge demo_priority (CHR ''x'')) = Some (edges_of demo_priority 0 ! 0) \<and>
   current_state (snd (process demo_priority (CHR ''x''))) = 1 \<and>
   fst (getEdge demo_priority (CHR ''y'')) = Some (global_edges demo_priority ! 0) \<and>
   fst (getEdge demo_priority (CHR ''z'')) = None"
proof -
  have c: "current_state demo_priority = 0" by (simp add: demo_defs)
  have 1: "first_accepting (edges_of demo_priority (current_state demo_priority)) (CHR ''x'') 0"
    by (simp add: demo_defs first_accepting_def)
  have 2: "destination (edges_of demo_priority (current_state demo_priority) ! 0) = 1"
    "default_state demo_priority = 0"
    by (simp_all add: demo_defs)
  have 3: "\<forall>e \<in> set (edges_of demo_priority (current_state demo_priority)). \<not> rule e (CHR ''y'')"
    "first_accepting (global_edges demo_priority) (CHR ''y'') 0"
    by (simp_all add: demo_defs first_accepting_def)
  have 4: "\<forall>e \<in> set (edges_of demo_priority (current_state demo_priority)). \<not> rule e (CHR ''z'')"
    "\<forall>e \<in> set (global_edges demo_priority). \<not> rule e (CHR ''z'')"
    by (simp_all add: demo_defs)
  show ?thesis
    using getEdge_local_before_global [of demo_priority "CHR ''x''" 0 0]
      getEdge_local_before_global [of demo_priority "CHR ''y''" 0 0]
      getEdge_local_before_global [of demo_priority "CHR ''z''" 0 0]
      1 2 3 4 c
    by simp
qed

text \<open>
  C5: when no local edge of the current state and no global edge accepts the symbol,
  \<open>process\<close> returns false, the current state is unchanged, and the previous state is
  that same state.
\<close>

theorem process_no_accepting_edge:
  assumes "\<forall>e \<in> set (edges_of fsm (current_state fsm)). \<not> rule e cond"
    and "\<forall>e \<in> set (global_edges fsm). \<not> rule e cond"
  shows "fst (process fsm cond) = False \<and>
         current_state (snd (process fsm cond)) = current_state fsm \<and>
         previous_state (snd (process fsm cond)) = current_state fsm"
proof -
  have "fst (first_getEdge fsm cond) = None"
    using assms by (simp add: first_getEdge_fst getEdge_loop_None [THEN iffD2])
  then show ?thesis
    by (simp add: process_none first_getEdge_fields)
qed

theorem process_no_accepting_edge_witness:
  "fst (process demo_priority (CHR ''z'')) = False \<and>
   current_state (snd (process demo_priority (CHR ''z''))) = 0 \<and>
   previous_state (snd (process demo_priority (CHR ''z''))) = 0"
proof -
  have c: "current_state demo_priority = 0" by (simp add: demo_defs)
  have 4: "\<forall>e \<in> set (edges_of demo_priority (current_state demo_priority)). \<not> rule e (CHR ''z'')"
    "\<forall>e \<in> set (global_edges demo_priority). \<not> rule e (CHR ''z'')"
    by (simp_all add: demo_defs)
  show ?thesis
    using process_no_accepting_edge [OF 4] c by simp
qed

text \<open>
  Counterexample to C7 as stated. On a machine without edges, \<open>getEdge\<close> indexes the
  edge map at the current state, which inserts an empty edge list there: the edge map
  has an entry after the call that it did not have before.
\<close>

theorem process_changes_edge_map_counterexample:
  "edges (FSM_default (0::nat) :: (nat, char) FSM) 0 = None \<and>
   edges (snd (process (FSM_default (0::nat)) (CHR ''x''))) 0 = Some []"
  by (simp add: FSM_default_def run_defs)

text \<open>
  C7, as amended: a call of \<open>process\<close> leaves the default state, the set of possible
  states, the global edge list and the state-name map unchanged, and the edge list of
  every state reads the same before and after (no entry reading as no edges). The edge
  map itself changes at most by new entries holding the empty list, under the state the
  call started in and under the default state.
\<close>

theorem process_frame:
  "default_state (snd (process fsm cond)) = default_state fsm \<and>
   possible_states (snd (process fsm cond)) = possible_states fsm \<and>
   global_edges (snd (process fsm cond)) = global_edges fsm \<and>
   state_names (snd (process fsm cond)) = state_names fsm \<and>
   (\<forall>s. edges_of (snd (process fsm cond)) s = edges_of fsm s) \<and>
   (\<forall>s. edges (snd (process fsm cond)) s = edges fsm s \<or>
        (edges fsm s = None \<and> edges (snd (process fsm cond)) s = Some [] \<and>
         (s = current_state fsm \<or> s = default_state fsm)))"
proof (cases rule: process_ways [of fsm cond])
  case none
  then show ?thesis
    using first_getEdge_edges [of fsm cond]
    by (auto simp add: process_none first_getEdge_fields first_getEdge_edges_of)
next
  case (away e1)
  then show ?thesis
    using first_getEdge_edges [of fsm cond]
    by (auto simp add: process_one_away changeState_fields first_getEdge_fields
        first_getEdge_edges_of)
next
  case (stay e1)
  then show ?thesis
    using second_getEdge_edges [of fsm cond e1]
    by (auto simp add: process_one_default second_getEdge_fields second_getEdge_edges_of)
next
  case (two e1 e2)
  then show ?thesis
    using second_getEdge_edges [of fsm cond e1]
    by (auto simp add: process_two changeState_fields second_getEdge_fields
        second_getEdge_edges_of)
qed

theorem process_frame_witness:
  "default_state (snd (process demo_reentry (CHR ''x''))) = 0 \<and>
   possible_states (snd (process demo_reentry (CHR ''x''))) = {0, 1, 2} \<and>
   edges_of (snd (process demo_reentry (CHR ''x''))) 2 = []"
proof -
  have "default_state demo_reentry = 0" "possible_states demo_reentry = {0, 1, 2}"
    "edges_of demo_reentry 2 = []"
    by (auto simp add: demo_defs)
  then show ?thesis
    using process_frame [of demo_reentry "CHR ''x''"] by simp
qed

text \<open>
  C8: the overload \<open>process(condition, outState, outChanged)\<close> stores in \<open>outChanged\<close> the
  boolean that \<open>process(condition)\<close> returns, and in \<open>outState\<close> the state before the
  transition: the current state before the call, which is what \<open>previousState()\<close>
  reports after it, not the destination reached.
\<close>

theorem process_out_stores:
  "snd (snd (process_out fsm cond)) = fst (process fsm cond) \<and>
   fst (process_out fsm cond) = snd (process fsm cond) \<and>
   fst (snd (process_out fsm cond)) = current_state fsm \<and>
   fst (snd (process_out fsm cond)) = previousState (fst (process_out fsm cond))"
  using process_previous_state [of fsm cond]
  by (cases "process fsm cond") (simp add: process_out_def previousState_def)

theorem process_out_stores_witness:
  "fst (snd (process_out demo_reentry (CHR ''x''))) = 1 \<and>
   snd (snd (process_out demo_reentry (CHR ''x''))) = True \<and>
   currentState (fst (process_out demo_reentry (CHR ''x''))) = 2 \<and>
   previousState (fst (process_out demo_reentry (CHR ''x''))) = 1"
proof -
  have c: "current_state demo_reentry = 1" by (simp add: demo_defs)
  have p: "fst (process demo_reentry (CHR ''x'')) = True"
    "current_state (snd (process demo_reentry (CHR ''x''))) = 2"
    by (simp_all add: demo_defs run_defs not_silent_expr_def E_SILENT_def E_NONE_def)
  have "fst (snd (process_out demo_reentry (CHR ''x''))) = 1"
    and "snd (snd (process_out demo_reentry (CHR ''x''))) = True"
    and "fst (process_out demo_reentry (CHR ''x'')) = snd (process demo_reentry (CHR ''x''))"
    and "previousState (fst (process_out demo_reentry (CHR ''x''))) = 1"
    using process_out_stores [of demo_reentry "CHR ''x''"] c p by metis+
  then show ?thesis
    using p by (simp add: currentState_def)
qed

subsection \<open>The build phase\<close>

lemma registered_edges_createEdge:
  "registered_edges (createEdge fsm src dst r lab fl) \<subseteq>
     insert (Edge_new src dst r lab fl) (registered_edges fsm)"
  by (auto simp: createEdge_eq registered_edges_def edges_of_def split: if_splits option.splits)

lemma registered_edges_createGlobalEdge:
  "registered_edges (createGlobalEdge fsm dst r lab fl) \<subseteq>
     insert (Edge_new (default_state fsm) dst r lab (fl OR E_GLOBAL)) (registered_edges fsm)"
  by (auto simp: createGlobalEdge_eq registered_edges_def)

lemma run_call_default_state: "default_state (run_call conv fsm call) = default_state fsm"
  by (cases call)
    (simp_all add: createEdge_eq createGlobalEdge_eq createEdge_value_def
      createGlobalEdge_value_def setStateName_def)

lemma run_call_possible_states:
  "possible_states (run_call conv fsm call) = possible_states fsm \<union> call_states call"
  by (cases call)
    (auto simp add: createEdge_eq createGlobalEdge_eq createEdge_value_def
      createGlobalEdge_value_def setStateName_def)

lemma run_call_registered_edges:
  assumes "e \<in> registered_edges (run_call conv fsm call)"
  shows "e \<in> registered_edges fsm \<or>
         (source e \<in> insert (default_state fsm) (call_states call) \<and>
          destination e \<in> call_states call)"
proof (cases call)
  case (CreateEdge src dst r lab fl)
  then show ?thesis
    using assms registered_edges_createEdge [of fsm src dst r lab fl]
    by (auto simp: Edge_new_def)
next
  case (CreateEdgeValue src dst v lab fl)
  then show ?thesis
    using assms registered_edges_createEdge [of fsm src dst "conv v" lab fl]
    by (auto simp: Edge_new_def createEdge_value_def)
next
  case (CreateGlobalEdge dst r lab fl)
  then show ?thesis
    using assms registered_edges_createGlobalEdge [of fsm dst r lab fl]
    by (auto simp: Edge_new_def)
next
  case (CreateGlobalEdgeValue dst v lab fl)
  then show ?thesis
    using assms registered_edges_createGlobalEdge [of fsm dst "conv v" lab fl]
    by (auto simp: Edge_new_def createGlobalEdge_value_def)
next
  case (SetStateName s n)
  then show ?thesis
    using assms by (simp add: setStateName_def registered_edges_def)
qed

lemma run_call_build_inv:
  assumes "build_inv fsm"
  shows "build_inv (run_call conv fsm call)"
  unfolding build_inv_def
proof (intro conjI ballI)
  show "default_state (run_call conv fsm call) \<in> possible_states (run_call conv fsm call)"
    using assms by (simp add: run_call_default_state run_call_possible_states build_inv_def)
next
  fix e assume "e \<in> registered_edges (run_call conv fsm call)"
  from run_call_registered_edges [OF this] assms
  show "source e \<in> possible_states (run_call conv fsm call)"
    and "destination e \<in> possible_states (run_call conv fsm call)"
    by (auto simp: run_call_possible_states build_inv_def)
qed

lemma run_calls_build_inv:
  "build_inv fsm \<Longrightarrow> build_inv (run_calls conv fsm calls)"
  unfolding run_calls_def
  by (induction calls arbitrary: fsm) (simp_all add: run_call_build_inv)

lemma run_calls_possible_states:
  "possible_states (run_calls conv fsm calls) = possible_states fsm \<union> (\<Union>call \<in> set calls. call_states call)"
  unfolding run_calls_def
  by (induction calls arbitrary: fsm) (auto simp add: run_call_possible_states)

lemma run_calls_default_state:
  "default_state (run_calls conv fsm calls) = default_state fsm"
  unfolding run_calls_def
  by (induction calls arbitrary: fsm) (simp_all add: run_call_default_state)

lemma FSM_start_build_inv: "build_inv (FSM_start d s0)"
  by (simp add: build_inv_def FSM_start_def registered_edges_def)

lemma FSM_default_eq: "FSM_default d = FSM_start d d"
  by (simp add: FSM_default_def FSM_start_def)

text \<open>
  C9: after construction (with or without a start state) and any sequence of calls of
  \<open>createEdge\<close> and \<open>createGlobalEdge\<close>, the set of possible states contains the
  default state, the initial state, every state passed as source or destination in a
  call, and the source and destination of every edge the machine holds.
\<close>

theorem possible_states_superset:
  "(let fsm = run_calls conv (FSM_start d s0) calls in
      default_state fsm = d \<and>
      d \<in> possible_states fsm \<and> s0 \<in> possible_states fsm \<and>
      (\<forall>call \<in> set calls. call_states call \<subseteq> possible_states fsm) \<and>
      (\<forall>e \<in> registered_edges fsm.
         source e \<in> possible_states fsm \<and> destination e \<in> possible_states fsm)) \<and>
   (let fsm = run_calls conv (FSM_default d) calls in
      default_state fsm = d \<and>
      d \<in> possible_states fsm \<and>
      (\<forall>call \<in> set calls. call_states call \<subseteq> possible_states fsm) \<and>
      (\<forall>e \<in> registered_edges fsm.
         source e \<in> possible_states fsm \<and> destination e \<in> possible_states fsm))"
proof -
  have inv: "build_inv (run_calls conv (FSM_start d s) calls)" for s
    by (rule run_calls_build_inv [OF FSM_start_build_inv])
  have ps: "possible_states (run_calls conv (FSM_start d s) calls) =
      {s, d} \<union> (\<Union>call \<in> set calls. call_states call)" for s
    by (simp add: run_calls_possible_states) (simp add: FSM_start_def)
  have ds: "default_state (run_calls conv (FSM_start d s) calls) = d" for s
    by (simp add: run_calls_default_state) (simp add: FSM_start_def)
  show ?thesis
    using inv [of s0] inv [of d] ps [of s0] ps [of d] ds [of s0] ds [of d]
    unfolding Let_def FSM_default_eq build_inv_def
    by blast
qed

theorem possible_states_superset_witness:
  "possible_states
     (run_calls (\<lambda>v c. c = v) (FSM_start (0::nat) 5)
        [CreateEdge 1 2 (\<lambda>c. c = CHR ''x'') ''x'' E_NONE,
         CreateGlobalEdgeValue 3 (CHR ''y'') ''y'' E_SILENT]) = {0, 1, 2, 3, 5}"
proof -
  let ?calls = "[CreateEdge 1 2 (\<lambda>c. c = CHR ''x'') ''x'' E_NONE,
         CreateGlobalEdgeValue (3::nat) (CHR ''y'') ''y'' E_SILENT]"
  let ?fsm = "run_calls (\<lambda>v c. c = v) (FSM_start (0::nat) 5) ?calls"
  have "possible_states ?fsm \<subseteq> {0, 1, 2, 3, 5}"
    by (simp add: run_calls_def createEdge_eq createGlobalEdge_eq createGlobalEdge_value_def
        FSM_start_def)
  moreover have "{0, 1, 2, 3, 5} \<subseteq> possible_states ?fsm"
    using possible_states_superset [of "\<lambda>v c. c = v" 0 5 ?calls]
    by (simp add: Let_def)
  ultimately show ?thesis by blast
qed

end
